theory Spec2Isabelle
  imports Main "HOL-Library.Extended_Nat" "HOL-Library.Multiset"
begin

section \<open>Stall records (src/data/stalls.ts)\<close>

text \<open>
  The stall-numbering helper \<open>getNextStallNumbers\<close> of \<open>src/data/stalls.ts\<close> reads three
  string fields of every record: \<open>id\<close>, \<open>name\<close> and \<open>type\<close>.  The other fields are carried
  along unread.  The field \<open>id\<close> is written \<open>id'\<close> here, because \<open>id\<close> is the identity
  function of HOL.

  A JavaScript string is a sequence of 16-bit code units.  A \<open>char\<close> of HOL has 256 values;
  it stands for the code unit of the same number, so the strings of this theory are the
  JavaScript strings whose code units lie in U+0000 .. U+00FF.
\<close>

datatype StallStatus = Current | Due | Overdue | Vacant

record StallRecord =
  id' :: string
  dbId :: int
  name :: string
  vendor :: string
  contact :: string
  type :: string
  monthlyRent :: int
  lastPayment :: string
  nextDue :: string
  status :: StallStatus
  occupied :: bool

section \<open>Characters and strings\<close>

text \<open>\<open>\d\<close> of a regular expression: the ten ASCII digits.\<close>

definition is_digit :: "char \<Rightarrow> bool" where
  "is_digit c \<longleftrightarrow> (let n = of_char c :: nat in 48 \<le> n \<and> n \<le> 57)"

text \<open>
  \<open>\s\<close> of a regular expression, and the characters \<open>String.prototype.trim\<close> removes:
  WhiteSpace and LineTerminator.  Below U+0100 these are TAB, LF, VT, FF, CR, SPACE and
  NO-BREAK SPACE.
\<close>

definition is_space :: "char \<Rightarrow> bool" where
  "is_space c \<longleftrightarrow> (of_char c :: nat) \<in> set [9, 10, 11, 12, 13, 32, 160]"

definition trim :: "string \<Rightarrow> string" where
  "trim s = rev (dropWhile is_space (rev (dropWhile is_space s)))"

text \<open>
  \<open>String.prototype.toLowerCase\<close>: below U+0100 the letters with a lower-case partner are
  A .. Z and U+00C0 .. U+00DE without the multiplication sign U+00D7; the partner is 32
  code units above.
\<close>

definition toLowerCase_char :: "char \<Rightarrow> char" where
  "toLowerCase_char c =
     (let n = of_char c :: nat
      in if (65 \<le> n \<and> n \<le> 90) \<or> (192 \<le> n \<and> n \<le> 222 \<and> n \<noteq> 215)
         then char_of (n + 32) else c)"

definition toLowerCase :: "string \<Rightarrow> string" where
  "toLowerCase s = map toLowerCase_char s"

section \<open>Numbers\<close>

text \<open>
  The numbers of \<open>getNextStallNumbers\<close> are IEEE 754 doubles.  The only ones that arise are
  \<open>0\<close>, the values \<open>Number(match[1])\<close> of digit strings, their maxima and one sum \<open>+ 1\<close>: each
  is a non-negative integer that a double represents, or \<open>Infinity\<close>.  They are modelled as
  \<open>enat\<close>, with \<open>\<infinity>\<close> for \<open>Infinity\<close>, and every operation rounds as the double operation
  does (to nearest, ties to even; \<open>Infinity\<close> from \<open>2 ^ 1024\<close>).
\<close>

type_synonym jsnum = enat

fun bitlen :: "nat \<Rightarrow> nat" where
  "bitlen n = (if n = 0 then 0 else Suc (bitlen (n div 2)))"

declare bitlen.simps [simp del]

definition round_double :: "nat \<Rightarrow> jsnum" where
  "round_double n =
     (if n < 2 ^ 53 then enat n
      else
        let e = bitlen n - 53;
            q = n div 2 ^ e;
            r = n mod 2 ^ e;
            h = 2 ^ (e - 1);
            q' = (if r > h \<or> (r = h \<and> odd q) then q + 1 else q);
            v = q' * 2 ^ e
        in if v \<ge> 2 ^ 1024 then \<infinity> else enat v)"

definition digit_value :: "char \<Rightarrow> nat" where
  "digit_value c = of_char c - 48"

definition decimal_value :: "string \<Rightarrow> nat" where
  "decimal_value ds = foldl (\<lambda>acc c. 10 * acc + digit_value c) 0 ds"

text \<open>
  \<open>Number(ds)\<close> for a string of digits.  Up to 20 significant digits the language fixes the
  result as the double nearest to the decimal value; beyond that it allows an
  implementation to round a truncation, and this model keeps the nearest double.
\<close>

definition Number :: "string \<Rightarrow> jsnum" where
  "Number ds = round_double (decimal_value ds)"

text \<open>\<open>x + 1\<close> on doubles.\<close>

definition js_succ :: "jsnum \<Rightarrow> jsnum" where
  "js_succ x = (case x of enat a \<Rightarrow> round_double (a + 1) | \<infinity> \<Rightarrow> \<infinity>)"

section \<open>The two regular expressions\<close>

text \<open>
  \<open>strip_literal eq p s\<close> consumes the literal \<open>p\<close> at the start of \<open>s\<close>, comparing characters
  with \<open>eq\<close>, and returns the rest of \<open>s\<close>.
\<close>

fun strip_literal :: "(char \<Rightarrow> char \<Rightarrow> bool) \<Rightarrow> string \<Rightarrow> string \<Rightarrow> string option" where
  "strip_literal eq [] s = Some s"
| "strip_literal eq (p # ps) [] = None"
| "strip_literal eq (p # ps) (c # cs) = (if eq p c then strip_literal eq ps cs else None)"

text \<open>
  With the flag \<open>i\<close> (and without \<open>u\<close>) a pattern character and an input character match
  when their canonical forms agree.  For the ASCII letters of the pattern \<open>Stall\<close> the only
  input characters with the same canonical form are the letter itself in either case: a
  character from U+0080 on is never canonicalised to an ASCII one.
\<close>

definition ascii_upper :: "char \<Rightarrow> char" where
  "ascii_upper c =
     (let n = of_char c :: nat in if 97 \<le> n \<and> n \<le> 122 then char_of (n - 32) else c)"

definition ci_eq :: "char \<Rightarrow> char \<Rightarrow> bool" where
  "ci_eq p c \<longleftrightarrow> ascii_upper c = ascii_upper p"

text \<open>The group \<open>(\d+)\<close> at the start of a string: the longest run of digits, not empty.\<close>

definition digits_group :: "string \<Rightarrow> string option" where
  "digits_group s = (let ds = takeWhile is_digit s in if ds = [] then None else Some ds)"

text \<open>\<open>/stall-(\d+)/\<close> tried at the start of a string; the result is the group.\<close>

definition match_id_here :: "string \<Rightarrow> string option" where
  "match_id_here s =
     (case strip_literal (=) ''stall-'' s of
        None \<Rightarrow> None
      | Some rest \<Rightarrow> digits_group rest)"

text \<open>
  \<open>/Stall\s+(\d+)/i\<close> tried at the start of a string.  \<open>\s+\<close> is greedy, and giving back
  white space never helps, since the character after it has to be a digit.
\<close>

definition match_name_here :: "string \<Rightarrow> string option" where
  "match_name_here s =
     (case strip_literal ci_eq ''Stall'' s of
        None \<Rightarrow> None
      | Some rest \<Rightarrow>
          if takeWhile is_space rest = [] then None
          else digits_group (dropWhile is_space rest))"

text \<open>
  \<open>RegExp.prototype.exec\<close> for a pattern without the flags \<open>g\<close> and \<open>y\<close>: the match at the
  leftmost position that has one, \<open>None\<close> for \<open>null\<close>.
\<close>

fun regex_exec :: "(string \<Rightarrow> string option) \<Rightarrow> string \<Rightarrow> string option" where
  "regex_exec m [] = m []"
| "regex_exec m (c # cs) = (case m (c # cs) of Some g \<Rightarrow> Some g | None \<Rightarrow> regex_exec m cs)"

section \<open>getNextStallNumbers\<close>

record NextNumbers =
  nextIdNumber :: jsnum
  nextNameNumber :: jsnum

text \<open>The callback of the first \<open>reduce\<close>.\<close>

definition id_step :: "jsnum \<Rightarrow> StallRecord \<Rightarrow> jsnum" where
  "id_step highest stall =
     (case regex_exec match_id_here (id' stall) of
        None \<Rightarrow> highest
      | Some g \<Rightarrow> max highest (Number g))"

text \<open>The callback of the second \<open>reduce\<close>; \<open>None\<close> is the \<open>null\<close> of \<open>normalizedType\<close>.\<close>

definition name_step :: "string option \<Rightarrow> jsnum \<Rightarrow> StallRecord \<Rightarrow> jsnum" where
  "name_step normalizedType highest stall =
     (if (case normalizedType of
            None \<Rightarrow> False
          | Some t \<Rightarrow> toLowerCase (trim (type stall)) \<noteq> t)
      then highest
      else
        case regex_exec match_name_here (name stall) of
          None \<Rightarrow> highest
        | Some g \<Rightarrow> max highest (Number g))"

text \<open>The optional argument \<open>type\<close> is \<open>None\<close> when it is left out (\<open>undefined\<close>).\<close>

definition getNextStallNumbers :: "StallRecord list \<Rightarrow> string option \<Rightarrow> NextNumbers" where
  "getNextStallNumbers stalls ty =
     (let normalizedType = map_option (\<lambda>t. toLowerCase (trim t)) ty
      in \<lparr> nextIdNumber = js_succ (foldl id_step 0 stalls),
           nextNameNumber = js_succ (foldl (name_step normalizedType) 0 stalls) \<rparr>)"

section \<open>What the records of a collection contribute\<close>

text \<open>
  A record passes the type filter when there is none, or when its \<open>type\<close>, trimmed and in
  lower case, is the filter, trimmed and in lower case.
\<close>

definition passes_filter :: "string option \<Rightarrow> StallRecord \<Rightarrow> bool" where
  "passes_filter ty stall \<longleftrightarrow>
     (case ty of
        None \<Rightarrow> True
      | Some t \<Rightarrow> toLowerCase (trim (type stall)) = toLowerCase (trim t))"

text \<open>
  The digit strings that the first \<open>reduce\<close> reads from a collection: the groups of the
  matches of \<open>/stall-(\d+)/\<close> in the \<open>id\<close> fields.
\<close>

definition id_matches :: "StallRecord list \<Rightarrow> string set" where
  "id_matches stalls = {g. \<exists>s \<in> set stalls. regex_exec match_id_here (id' s) = Some g}"

text \<open>
  The digit strings that the second \<open>reduce\<close> reads: the groups of the matches of
  \<open>/Stall\s+(\d+)/i\<close> in the \<open>name\<close> fields of the records that pass the filter.
\<close>

definition name_matches :: "string option \<Rightarrow> StallRecord list \<Rightarrow> string set" where
  "name_matches ty stalls =
     {g. \<exists>s \<in> set stalls. passes_filter ty s \<and> regex_exec match_name_here (name s) = Some g}"

text \<open>
  The reading of the id pattern that anchors it: \<open>stall-\<close> is a prefix of the \<open>id\<close> and the
  digits follow it.  It is \<open>match_id_here\<close> on the whole \<open>id\<close>, without the search for a
  later position.
\<close>

definition id_prefix_matches :: "StallRecord list \<Rightarrow> string set" where
  "id_prefix_matches stalls = {g. \<exists>s \<in> set stalls. match_id_here (id' s) = Some g}"

subsection \<open>Example records\<close>

definition fish_stall :: StallRecord where
  "fish_stall = \<lparr> id' = ''stall-2'', dbId = 2, name = ''Stall 3'', vendor = ''Ana'',
     contact = ''0917'', type = ''Fish'', monthlyRent = 1500, lastPayment = ''2024-01-05'',
     nextDue = ''2024-02-05'', status = Current, occupied = True \<rparr>"

definition meat_stall :: StallRecord where
  "meat_stall = \<lparr> id' = ''stall-7'', dbId = 7, name = ''Stall 1'', vendor = ''Ben'',
     contact = ''0918'', type = ''Meat'', monthlyRent = 1800, lastPayment = ''2024-01-09'',
     nextDue = ''2024-02-09'', status = Due, occupied = True \<rparr>"

definition padded_fish_stall :: StallRecord where
  "padded_fish_stall = \<lparr> id' = ''stall-4'', dbId = 4, name = ''Stall 6'', vendor = ''Dan'',
     contact = ''0920'', type = '' Fish '', monthlyRent = 1500, lastPayment = ''2024-01-03'',
     nextDue = ''2024-02-03'', status = Overdue, occupied = True \<rparr>"

definition blank_type_stall :: StallRecord where
  "blank_type_stall = \<lparr> id' = ''stall-9'', dbId = 9, name = ''Stall 1'', vendor = ''Cora'',
     contact = ''0919'', type = '' '', monthlyRent = 1200, lastPayment = ''2024-01-02'',
     nextDue = ''2024-02-02'', status = Vacant, occupied = False \<rparr>"

definition unnumbered_stall :: StallRecord where
  "unnumbered_stall = \<lparr> id' = ''kiosk-12'', dbId = 12, name = ''Corner kiosk'', vendor = ''Eva'',
     contact = ''0921'', type = ''Fish'', monthlyRent = 900, lastPayment = ''2024-01-04'',
     nextDue = ''2024-02-04'', status = Current, occupied = True \<rparr>"

definition relabelled_stall :: StallRecord where
  "relabelled_stall = \<lparr> id' = ''old-stall-5'', dbId = 5, name = ''Annex 5'', vendor = ''Flor'',
     contact = ''0922'', type = ''Rice'', monthlyRent = 1000, lastPayment = ''2024-01-06'',
     nextDue = ''2024-02-06'', status = Current, occupied = True \<rparr>"

definition huge_stall :: StallRecord where
  "huge_stall = \<lparr> id' = ''stall-9007199254740992'', dbId = 1, name = ''Stall 9007199254740992'',
     vendor = ''Gil'', contact = ''0923'', type = ''Grocery'', monthlyRent = 1000,
     lastPayment = ''2024-01-07'', nextDue = ''2024-02-07'', status = Current, occupied = True \<rparr>"

section \<open>Evaluation\<close>

lemma eq_char_of_iff: "c = char_of n \<longleftrightarrow> take_bit 8 n = of_char c"
  by (auto simp: char_of_eq_iff [symmetric])

lemmas eval_defs = getNextStallNumbers_def id_step_def name_step_def match_id_here_def
  match_name_here_def digits_group_def is_digit_def is_space_def trim_def toLowerCase_def
  toLowerCase_char_def ascii_upper_def ci_eq_def Number_def decimal_value_def digit_value_def
  js_succ_def round_double_def char_of_eq_iff numeral_eq_enat zero_enat_def one_enat_def eq_char_of_iff

section \<open>Rounding\<close>

lemma round_double_exact: "n \<le> 2 ^ 53 \<Longrightarrow> round_double n = enat n"
proof (cases "n < 2 ^ 53")
  case True
  then show ?thesis by (simp add: round_double_def)
next
  case False
  assume "n \<le> 2 ^ 53"
  with False have n: "n = 9007199254740992" by simp
  have "bitlen 9007199254740992 = 54" by (simp add: bitlen.simps)
  then show ?thesis unfolding n round_double_def by (simp add: Let_def)
qed

lemma js_succ_exact: "m < 2 ^ 53 \<Longrightarrow> js_succ (enat m) = enat (m + 1)"
  by (simp add: js_succ_def round_double_exact)

lemma Max_enat_image:
  assumes "finite D"
  shows "Max (insert 0 (enat ` D)) = enat (Max (insert 0 D))"
proof -
  have "mono enat" by (simp add: mono_def)
  then have "enat (Max (insert 0 D)) = Max (enat ` insert 0 D)"
    by (rule mono_Max_commute) (use assms in simp_all)
  then show ?thesis by (simp add: zero_enat_def)
qed

section \<open>A reduce with max is a maximum\<close>

lemma finite_Some_image: "finite {v. \<exists>x \<in> set xs. f x = Some v}"
proof -
  have "{v. \<exists>x \<in> set xs. f x = Some v} \<subseteq> (\<lambda>x. the (f x)) ` set xs"
    by force
  then show ?thesis by (rule finite_subset) simp
qed

lemma foldl_max_option:
  fixes f :: "'a \<Rightarrow> ('b :: linorder) option"
  shows "foldl (\<lambda>h x. case f x of None \<Rightarrow> h | Some v \<Rightarrow> max h v) a xs
         = Max (insert a {v. \<exists>x \<in> set xs. f x = Some v})"
proof (induction xs rule: rev_induct)
  case Nil
  show ?case by simp
next
  case (snoc x xs)
  let ?S = "\<lambda>ys. {v. \<exists>y \<in> set ys. f y = Some v}"
  show ?case
  proof (cases "f x")
    case None
    then have "?S (xs @ [x]) = ?S xs" by auto
    with None snoc show ?thesis by simp
  next
    case (Some v)
    then have "?S (xs @ [x]) = insert v (?S xs)" by auto
    then have "Max (insert a (?S (xs @ [x]))) = Max (insert v (insert a (?S xs)))"
      by (simp add: insert_commute)
    also have "\<dots> = max v (Max (insert a (?S xs)))"
      by (rule Max_insert) (simp_all add: finite_Some_image)
    finally show ?thesis using Some snoc by (simp add: max.commute)
  qed
qed

lemma id_step_option:
  "id_step = (\<lambda>h s. case map_option Number (regex_exec match_id_here (id' s)) of
                      None \<Rightarrow> h | Some v \<Rightarrow> max h v)"
  by (auto simp: id_step_def fun_eq_iff split: option.splits)

lemma name_step_option:
  "name_step (map_option (\<lambda>t. toLowerCase (trim t)) ty) =
     (\<lambda>h s. case (if passes_filter ty s
                   then map_option Number (regex_exec match_name_here (name s)) else None) of
               None \<Rightarrow> h | Some v \<Rightarrow> max h v)"
  by (auto simp: name_step_def passes_filter_def fun_eq_iff split: option.splits)

lemma foldl_id_step: "foldl id_step a stalls = Max (insert a (Number ` id_matches stalls))"
proof -
  have "{v. \<exists>s \<in> set stalls. map_option Number (regex_exec match_id_here (id' s)) = Some v}
        = Number ` id_matches stalls"
    by (auto simp: id_matches_def image_iff)
  then show ?thesis unfolding id_step_option foldl_max_option by (rule arg_cong)
qed

lemma foldl_name_step:
  "foldl (name_step (map_option (\<lambda>t. toLowerCase (trim t)) ty)) a stalls
   = Max (insert a (Number ` name_matches ty stalls))"
proof -
  have "{v. \<exists>s \<in> set stalls.
          (if passes_filter ty s
           then map_option Number (regex_exec match_name_here (name s)) else None) = Some v}
        = Number ` name_matches ty stalls"
    by (auto simp: name_matches_def image_iff split: if_splits)
  then show ?thesis unfolding name_step_option foldl_max_option by (rule arg_cong)
qed

lemma finite_id_matches: "finite (id_matches stalls)"
  unfolding id_matches_def by (rule finite_Some_image)

lemma finite_name_matches: "finite (name_matches ty stalls)"
proof -
  have "name_matches ty stalls \<subseteq> {g. \<exists>s \<in> set stalls. regex_exec match_name_here (name s) = Some g}"
    by (auto simp: name_matches_def)
  then show ?thesis by (rule finite_subset) (rule finite_Some_image)
qed

lemma nextIdNumber_Max:
  "nextIdNumber (getNextStallNumbers stalls ty) = js_succ (Max (insert 0 (Number ` id_matches stalls)))"
  by (simp add: getNextStallNumbers_def foldl_id_step)

lemma nextNameNumber_Max:
  "nextNameNumber (getNextStallNumbers stalls ty)
   = js_succ (Max (insert 0 (Number ` name_matches ty stalls)))"
  by (simp add: getNextStallNumbers_def foldl_name_step)

lemma NextNumbers_eqI:
  "nextIdNumber a = nextIdNumber b \<Longrightarrow> nextNameNumber a = nextNameNumber b \<Longrightarrow> a = (b :: NextNumbers)"
  by simp

lemma max_plus_one_exact:
  assumes fin: "finite G" and small: "\<forall>g \<in> G. decimal_value g < 2 ^ 53"
  shows "js_succ (Max (insert 0 (Number ` G))) = enat (Max (insert 0 (decimal_value ` G)) + 1)"
proof -
  have "Number ` G = enat ` decimal_value ` G"
    using small by (force simp: Number_def round_double_exact image_iff)
  then have "Max (insert 0 (Number ` G)) = enat (Max (insert 0 (decimal_value ` G)))"
    using fin by (simp add: Max_enat_image)
  moreover have "Max (insert 0 (decimal_value ` G)) < 2 ^ 53"
    using fin small by (subst Max_less_iff) auto
  ultimately show ?thesis by (simp add: js_succ_exact)
qed

subsection \<open>The matches of a concrete collection\<close>

lemma id_matches_Nil: "id_matches [] = {}"
  by (simp add: id_matches_def)

lemma id_matches_Cons:
  "id_matches (s # stalls) =
     (case regex_exec match_id_here (id' s) of
        None \<Rightarrow> id_matches stalls
      | Some g \<Rightarrow> insert g (id_matches stalls))"
  by (auto simp: id_matches_def split: option.splits)

lemma id_prefix_matches_Nil: "id_prefix_matches [] = {}"
  by (simp add: id_prefix_matches_def)

lemma id_prefix_matches_Cons:
  "id_prefix_matches (s # stalls) =
     (case match_id_here (id' s) of
        None \<Rightarrow> id_prefix_matches stalls
      | Some g \<Rightarrow> insert g (id_prefix_matches stalls))"
  by (auto simp: id_prefix_matches_def split: option.splits)

lemma name_matches_Nil: "name_matches ty [] = {}"
  by (simp add: name_matches_def)

lemma name_matches_Cons:
  "name_matches ty (s # stalls) =
     (if passes_filter ty s
      then case regex_exec match_name_here (name s) of
             None \<Rightarrow> name_matches ty stalls
           | Some g \<Rightarrow> insert g (name_matches ty stalls)
      else name_matches ty stalls)"
  by (auto simp: name_matches_def split: option.splits)

lemmas eval_sets = id_matches_Nil id_matches_Cons id_prefix_matches_Nil id_prefix_matches_Cons
  name_matches_Nil name_matches_Cons passes_filter_def

section \<open>What the two patterns match\<close>

text \<open>
  The matchers above are programs; these lemmas say what they accept.  \<open>regex_exec\<close> returns
  the match at the first position that has one.  \<open>/stall-(\d+)/\<close> matches at a position when
  the text there is \<open>stall-\<close> and a longest, non-empty run of digits, which is the group.
  \<open>/Stall\s+(\d+)/i\<close> matches when the text is the five letters in either case, a non-empty
  run of white space and such a run of digits.
\<close>

lemma strip_literal_Some_iff:
  "strip_literal eq p s = Some rest \<longleftrightarrow> (\<exists>w. s = w @ rest \<and> list_all2 eq p w)"
proof (induction eq p s rule: strip_literal.induct)
  case (1 eq s)
  show ?case by simp
next
  case (2 eq p ps)
  show ?case by (simp add: list_all2_Cons1)
next
  case (3 eq p ps c cs)
  show ?case
  proof (cases "eq p c")
    case True
    with 3 show ?thesis by (auto simp: list_all2_Cons1 Cons_eq_append_conv)
  next
    case False
    then show ?thesis by (auto simp: list_all2_Cons1 Cons_eq_append_conv)
  qed
qed

lemma strip_literal_eq_Some_iff: "strip_literal (=) p s = Some rest \<longleftrightarrow> s = p @ rest"
  by (auto simp: strip_literal_Some_iff list_all2_eq [symmetric])

lemma takeWhile_eq_iff:
  "takeWhile P s = g \<longleftrightarrow> list_all P g \<and> (\<exists>rest. s = g @ rest \<and> (rest = [] \<or> \<not> P (hd rest)))"
proof
  assume "takeWhile P s = g"
  then have g: "g = takeWhile P s" by simp
  have "s = g @ dropWhile P s" by (simp add: g)
  moreover have "dropWhile P s = [] \<or> \<not> P (hd (dropWhile P s))"
    by (metis hd_dropWhile)
  moreover have "list_all P g" by (auto simp: g list_all_iff dest: set_takeWhileD)
  ultimately show "list_all P g \<and> (\<exists>rest. s = g @ rest \<and> (rest = [] \<or> \<not> P (hd rest)))"
    by blast
next
  assume "list_all P g \<and> (\<exists>rest. s = g @ rest \<and> (rest = [] \<or> \<not> P (hd rest)))"
  then obtain rest where a: "list_all P g" and s: "s = g @ rest"
    and r: "rest = [] \<or> \<not> P (hd rest)" by blast
  from a have "takeWhile P (g @ rest) = g @ takeWhile P rest"
    by (simp add: list_all_iff)
  moreover from r have "takeWhile P rest = []" by (cases rest) auto
  ultimately show "takeWhile P s = g" by (simp add: s)
qed

lemma digits_group_Some_iff:
  "digits_group s = Some g \<longleftrightarrow>
     g \<noteq> [] \<and> list_all is_digit g \<and> (\<exists>rest. s = g @ rest \<and> (rest = [] \<or> \<not> is_digit (hd rest)))"
proof -
  have "digits_group s = Some g \<longleftrightarrow> g \<noteq> [] \<and> takeWhile is_digit s = g"
    by (auto simp: digits_group_def Let_def)
  then show ?thesis by (simp add: takeWhile_eq_iff)
qed

lemma match_id_here_Some_iff:
  "match_id_here s = Some g \<longleftrightarrow>
     g \<noteq> [] \<and> list_all is_digit g \<and>
     (\<exists>rest. s = ''stall-'' @ g @ rest \<and> (rest = [] \<or> \<not> is_digit (hd rest)))"
proof -
  have "match_id_here s = Some g \<longleftrightarrow> (\<exists>t. s = ''stall-'' @ t \<and> digits_group t = Some g)"
    by (auto simp: match_id_here_def strip_literal_eq_Some_iff split: option.splits)
  then show ?thesis by (auto simp: digits_group_Some_iff)
qed

lemma digit_not_space: "is_digit c \<Longrightarrow> \<not> is_space c"
  by (auto simp: is_digit_def is_space_def Let_def)

lemma spaces_then_digits:
  assumes "ws \<noteq> []" "list_all is_space ws" "g \<noteq> []" "list_all is_digit g"
  shows "takeWhile is_space (ws @ g @ rest) = ws" "dropWhile is_space (ws @ g @ rest) = g @ rest"
proof -
  from assms obtain d ds where g: "g = d # ds" and d: "is_digit d" by (cases g) auto
  then have "\<not> is_space (hd (g @ rest))" by (simp add: digit_not_space)
  with assms(2) show "takeWhile is_space (ws @ g @ rest) = ws"
    by (simp add: takeWhile_eq_iff g) 
  then show "dropWhile is_space (ws @ g @ rest) = g @ rest"
    by (metis append_eq_append_conv takeWhile_dropWhile_id)
qed

lemma match_name_here_Some_iff:
  "match_name_here s = Some g \<longleftrightarrow>
     g \<noteq> [] \<and> list_all is_digit g \<and>
     (\<exists>w ws rest. s = w @ ws @ g @ rest \<and> list_all2 ci_eq ''Stall'' w \<and>
        ws \<noteq> [] \<and> list_all is_space ws \<and> (rest = [] \<or> \<not> is_digit (hd rest)))"
  (is "?L \<longleftrightarrow> ?R")
proof
  assume ?L
  then obtain t where t: "strip_literal ci_eq ''Stall'' s = Some t"
    and ws: "takeWhile is_space t \<noteq> []"
    and dg: "digits_group (dropWhile is_space t) = Some g"
    by (auto simp: match_name_here_def split: option.splits if_splits)
  from t obtain w where w: "s = w @ t" "list_all2 ci_eq ''Stall'' w"
    by (auto simp: strip_literal_Some_iff)
  from dg obtain rest where g: "g \<noteq> []" "list_all is_digit g"
    and r: "dropWhile is_space t = g @ rest" "rest = [] \<or> \<not> is_digit (hd rest)"
    by (auto simp: digits_group_Some_iff)
  have "t = takeWhile is_space t @ g @ rest"
    by (metis r(1) takeWhile_dropWhile_id)
  moreover have "list_all is_space (takeWhile is_space t)"
    by (auto simp: list_all_iff dest: set_takeWhileD)
  ultimately show ?R using w ws g r(2) by metis
next
  assume ?R
  then obtain w ws rest where g: "g \<noteq> []" "list_all is_digit g"
    and s: "s = w @ ws @ g @ rest" and w: "list_all2 ci_eq ''Stall'' w"
    and ws: "ws \<noteq> []" "list_all is_space ws" and r: "rest = [] \<or> \<not> is_digit (hd rest)"
    by blast
  from s w have "strip_literal ci_eq ''Stall'' s = Some (ws @ g @ rest)"
    unfolding strip_literal_Some_iff by blast
  moreover have "digits_group (g @ rest) = Some g"
    using g r by (auto simp: digits_group_Some_iff)
  ultimately show ?L
    using spaces_then_digits [OF ws g, of rest] ws(1)
    by (simp add: match_name_here_def)
qed

lemma regex_exec_Some_iff:
  "regex_exec m s = Some g \<longleftrightarrow>
     (\<exists>k \<le> length s. m (drop k s) = Some g \<and> (\<forall>j < k. m (drop j s) = None))"
proof (induction s)
  case Nil
  show ?case by simp
next
  case (Cons c cs)
  show ?case
  proof (cases "m (c # cs)")
    case (Some h)
    have "(\<exists>k \<le> length (c # cs). m (drop k (c # cs)) = Some g \<and> (\<forall>j < k. m (drop j (c # cs)) = None))
          \<longleftrightarrow> h = g" (is "?E \<longleftrightarrow> _")
    proof
      assume ?E
      then obtain k where k: "m (drop k (c # cs)) = Some g" "\<forall>j < k. m (drop j (c # cs)) = None"
        by blast
      have "k = 0"
      proof (rule ccontr)
        assume "k \<noteq> 0"
        then have "m (drop 0 (c # cs)) = None" using k(2) by blast
        with Some show False by simp
      qed
      with k(1) Some show "h = g" by simp
    next
      assume "h = g"
      with Some have "m (drop 0 (c # cs)) = Some g \<and> (\<forall>j < 0. m (drop j (c # cs)) = None)"
        by simp
      then show ?E by blast
    qed
    with Some show ?thesis by simp
  next
    case None
    have "(\<exists>k \<le> length (c # cs). m (drop k (c # cs)) = Some g \<and> (\<forall>j < k. m (drop j (c # cs)) = None))
          \<longleftrightarrow> (\<exists>k \<le> length cs. m (drop k cs) = Some g \<and> (\<forall>j < k. m (drop j cs) = None))"
      (is "?E \<longleftrightarrow> ?F")
    proof
      assume ?E
      then obtain k where k: "k \<le> length (c # cs)" "m (drop k (c # cs)) = Some g"
        "\<forall>j < k. m (drop j (c # cs)) = None" by blast
      from k(2) None obtain k' where k': "k = Suc k'" by (cases k) auto
      have "\<forall>j < k'. m (drop j cs) = None"
      proof (intro allI impI)
        fix j assume "j < k'"
        then have "Suc j < k" by (simp add: k')
        with k(3) have "m (drop (Suc j) (c # cs)) = None" by blast
        then show "m (drop j cs) = None" by simp
      qed
      with k(1,2) k' show ?F by auto
    next
      assume ?F
      then obtain k where k: "k \<le> length cs" "m (drop k cs) = Some g"
        "\<forall>j < k. m (drop j cs) = None" by blast
      have "\<forall>j < Suc k. m (drop j (c # cs)) = None"
      proof (intro allI impI)
        fix j assume "j < Suc k"
        then show "m (drop j (c # cs)) = None"
          using None k(3) by (cases j) auto
      qed
      with k(1,2) have "Suc k \<le> length (c # cs) \<and> m (drop (Suc k) (c # cs)) = Some g \<and>
        (\<forall>j < Suc k. m (drop j (c # cs)) = None)" by simp
      then show ?E by blast
    qed
    with None Cons show ?thesis by simp
  qed
qed

lemma ci_eq_letter:
  assumes "65 \<le> (of_char p :: nat)" "(of_char p :: nat) \<le> 90"
  shows "ci_eq p c \<longleftrightarrow> c = p \<or> c = char_of (of_char p + 32 :: nat)"
proof -
  have up: "ascii_upper p = p" using assms by (simp add: ascii_upper_def Let_def)
  have lt: "(of_char c :: nat) < 256" by simp
  show ?thesis
  proof (cases "97 \<le> (of_char c :: nat) \<and> (of_char c :: nat) \<le> 122")
    case True
    then have "ascii_upper c = char_of (of_char c - 32 :: nat)"
      by (simp add: ascii_upper_def Let_def)
    moreover have "c \<noteq> p" using True assms by auto
    moreover have "char_of (of_char c - 32 :: nat) = p \<longleftrightarrow> c = char_of (of_char p + 32 :: nat)"
      using True assms lt by (auto simp: char_of_eq_iff eq_char_of_iff take_bit_eq_mod)
    ultimately show ?thesis by (simp add: ci_eq_def up)
  next
    case False
    then have "ascii_upper c = c" by (auto simp: ascii_upper_def Let_def)
    moreover have "c \<noteq> char_of (of_char p + 32 :: nat)"
      using False assms by (auto simp: eq_char_of_iff take_bit_eq_mod)
    ultimately show ?thesis by (simp add: ci_eq_def up)
  qed
qed

lemma ci_eq_upper_lower:
  assumes "65 \<le> (of_char u :: nat)" "(of_char u :: nat) \<le> 90"
    and "char_of (of_char u + 32 :: nat) = l"
    and "ascii_upper p = u"
  shows "ci_eq p c \<longleftrightarrow> c = u \<or> c = l"
proof -
  from assms(1,2) have "ascii_upper u = u" by (simp add: ascii_upper_def Let_def)
  with assms(4) have "ci_eq p c \<longleftrightarrow> ci_eq u c" by (simp add: ci_eq_def)
  also have "\<dots> \<longleftrightarrow> c = u \<or> c = char_of (of_char u + 32 :: nat)"
    using assms(1,2) by (rule ci_eq_letter)
  finally show ?thesis by (simp only: assms(3))
qed

lemma ci_eq_Stall_iff:
  "list_all2 ci_eq ''Stall'' w \<longleftrightarrow>
     (\<exists>c1 c2 c3 c4 c5. w = [c1, c2, c3, c4, c5] \<and>
        (c1 = CHR ''S'' \<or> c1 = CHR ''s'') \<and> (c2 = CHR ''T'' \<or> c2 = CHR ''t'') \<and>
        (c3 = CHR ''A'' \<or> c3 = CHR ''a'') \<and> (c4 = CHR ''L'' \<or> c4 = CHR ''l'') \<and>
        (c5 = CHR ''L'' \<or> c5 = CHR ''l''))"
proof -
  have S: "ci_eq CHR ''S'' c \<longleftrightarrow> c = CHR ''S'' \<or> c = CHR ''s''" for c
    by (rule ci_eq_upper_lower) (simp_all add: ascii_upper_def char_of_eq_iff)
  have T: "ci_eq CHR ''t'' c \<longleftrightarrow> c = CHR ''T'' \<or> c = CHR ''t''" for c
    by (rule ci_eq_upper_lower) (simp_all add: ascii_upper_def char_of_eq_iff)
  have A: "ci_eq CHR ''a'' c \<longleftrightarrow> c = CHR ''A'' \<or> c = CHR ''a''" for c
    by (rule ci_eq_upper_lower) (simp_all add: ascii_upper_def char_of_eq_iff)
  have L: "ci_eq CHR ''l'' c \<longleftrightarrow> c = CHR ''L'' \<or> c = CHR ''l''" for c
    by (rule ci_eq_upper_lower) (simp_all add: ascii_upper_def char_of_eq_iff)
  have "list_all2 ci_eq ''Stall'' w \<longleftrightarrow>
     (\<exists>c1 c2 c3 c4 c5. w = [c1, c2, c3, c4, c5] \<and> ci_eq CHR ''S'' c1 \<and> ci_eq CHR ''t'' c2 \<and>
        ci_eq CHR ''a'' c3 \<and> ci_eq CHR ''l'' c4 \<and> ci_eq CHR ''l'' c5)"
    by (auto simp: list_all2_Cons1)
  then show ?thesis by (simp only: S T A L)
qed

text \<open>
  Together: the group that \<open>exec\<close> returns is the digits of the first occurrence of the
  pattern, at whatever position of the string it stands.
\<close>

lemma digits_group_None_iff:
  "digits_group t = None \<longleftrightarrow> \<not> (\<exists>d rest. t = d # rest \<and> is_digit d)"
  by (cases t) (auto simp: digits_group_def Let_def)

lemma match_id_here_None_iff:
  "match_id_here t = None \<longleftrightarrow> \<not> (\<exists>d rest. t = ''stall-'' @ d # rest \<and> is_digit d)"
proof (cases "strip_literal (=) ''stall-'' t")
  case None
  then have "\<not> (\<exists>u. t = ''stall-'' @ u)"
    using strip_literal_eq_Some_iff [of "''stall-''" t] by auto
  with None show ?thesis by (auto simp: match_id_here_def)
next
  case (Some u)
  then have "t = ''stall-'' @ u" by (simp add: strip_literal_eq_Some_iff)
  with Some show ?thesis by (auto simp: match_id_here_def digits_group_None_iff)
qed

lemma first_id_match_iff:
  "regex_exec match_id_here s = Some g \<longleftrightarrow>
     g \<noteq> [] \<and> list_all is_digit g \<and>
     (\<exists>pre rest. s = pre @ ''stall-'' @ g @ rest \<and> (rest = [] \<or> \<not> is_digit (hd rest)) \<and>
        (\<forall>j < length pre. match_id_here (drop j s) = None))"
  (is "?L \<longleftrightarrow> ?R")
proof
  assume ?L
  then obtain k where k: "k \<le> length s" "match_id_here (drop k s) = Some g"
    "\<forall>j < k. match_id_here (drop j s) = None"
    by (auto simp: regex_exec_Some_iff)
  from k(2) obtain rest where g: "g \<noteq> []" "list_all is_digit g"
    and d: "drop k s = ''stall-'' @ g @ rest" and r: "rest = [] \<or> \<not> is_digit (hd rest)"
    by (auto simp: match_id_here_Some_iff)
  have "s = take k s @ ''stall-'' @ g @ rest"
    using d by (metis append_take_drop_id)
  moreover have "length (take k s) = k" using k(1) by simp
  ultimately show ?R using g r k(3) by metis
next
  assume ?R
  then obtain pre rest where g: "g \<noteq> []" "list_all is_digit g"
    and s: "s = pre @ ''stall-'' @ g @ rest" and r: "rest = [] \<or> \<not> is_digit (hd rest)"
    and n: "\<forall>j < length pre. match_id_here (drop j s) = None"
    by blast
  from s have "drop (length pre) s = ''stall-'' @ g @ rest" by simp
  with g r have "match_id_here (drop (length pre) s) = Some g"
    by (auto simp: match_id_here_Some_iff)
  moreover from s have "length pre \<le> length s" by simp
  ultimately show ?L using n unfolding regex_exec_Some_iff by blast
qed

lemma first_name_match_iff:
  "regex_exec match_name_here s = Some g \<longleftrightarrow>
     g \<noteq> [] \<and> list_all is_digit g \<and>
     (\<exists>pre w ws rest. s = pre @ w @ ws @ g @ rest \<and> list_all2 ci_eq ''Stall'' w \<and>
        ws \<noteq> [] \<and> list_all is_space ws \<and> (rest = [] \<or> \<not> is_digit (hd rest)) \<and>
        (\<forall>j < length pre. match_name_here (drop j s) = None))"
  (is "?L \<longleftrightarrow> ?R")
proof
  assume ?L
  then obtain k where k: "k \<le> length s" "match_name_here (drop k s) = Some g"
    "\<forall>j < k. match_name_here (drop j s) = None"
    by (auto simp: regex_exec_Some_iff)
  from k(2) obtain w ws rest where g: "g \<noteq> []" "list_all is_digit g"
    and d: "drop k s = w @ ws @ g @ rest" and w: "list_all2 ci_eq ''Stall'' w"
    and ws: "ws \<noteq> []" "list_all is_space ws" and r: "rest = [] \<or> \<not> is_digit (hd rest)"
    unfolding match_name_here_Some_iff by blast
  have "s = take k s @ w @ ws @ g @ rest"
    using d by (metis append_take_drop_id)
  moreover have "length (take k s) = k" using k(1) by simp
  ultimately show ?R using g w ws r k(3) by metis
next
  assume ?R
  then obtain pre w ws rest where g: "g \<noteq> []" "list_all is_digit g"
    and s: "s = pre @ w @ ws @ g @ rest" and w: "list_all2 ci_eq ''Stall'' w"
    and ws: "ws \<noteq> []" "list_all is_space ws" and r: "rest = [] \<or> \<not> is_digit (hd rest)"
    and n: "\<forall>j < length pre. match_name_here (drop j s) = None"
    by blast
  from s have "drop (length pre) s = w @ ws @ g @ rest" by simp
  with g w ws r have "match_name_here (drop (length pre) s) = Some g"
    unfolding match_name_here_Some_iff by blast
  moreover from s have "length pre \<le> length s" by simp
  ultimately show ?L using n unfolding regex_exec_Some_iff by blast
qed

section \<open>The number for the ids\<close>

text \<open>
  C1, as amended.  \<open>nextIdNumber\<close> does not depend on the type filter.  It is the maximum, with
  0 for none, of the numbers \<open>Number(digits)\<close> read from the \<open>id\<close> of every record, plus 1 in
  double arithmetic; the digits are the group of the first match of \<open>stall-\<close> and digits at any
  position of the \<open>id\<close>, not only at its start.  When every digit string read denotes an
  integer below \<open>2 ^ 53\<close>, the result is exactly the largest of these integers plus 1.
\<close>

theorem nextIdNumber_max_plus_one:
  "nextIdNumber (getNextStallNumbers stalls ty)
     = js_succ (Max (insert 0 (Number ` id_matches stalls))) \<and>
   ((\<forall>g \<in> id_matches stalls. decimal_value g < 2 ^ 53) \<longrightarrow>
      nextIdNumber (getNextStallNumbers stalls ty)
        = enat (Max (insert 0 (decimal_value ` id_matches stalls)) + 1))"
proof (intro conjI impI)
  show "nextIdNumber (getNextStallNumbers stalls ty)
     = js_succ (Max (insert 0 (Number ` id_matches stalls)))"
    by (rule nextIdNumber_Max)
next
  assume "\<forall>g \<in> id_matches stalls. decimal_value g < 2 ^ 53"
  with finite_id_matches
  have "js_succ (Max (insert 0 (Number ` id_matches stalls)))
        = enat (Max (insert 0 (decimal_value ` id_matches stalls)) + 1)"
    by (rule max_plus_one_exact)
  then show "nextIdNumber (getNextStallNumbers stalls ty)
        = enat (Max (insert 0 (decimal_value ` id_matches stalls)) + 1)"
    by (simp add: nextIdNumber_Max)
qed

theorem nextIdNumber_max_plus_one_witness:
  "id_matches [relabelled_stall, fish_stall] = {''5'', ''2''} \<and>
   decimal_value ''5'' < 2 ^ 53 \<and> decimal_value ''2'' < 2 ^ 53 \<and>
   nextIdNumber (getNextStallNumbers [relabelled_stall, fish_stall] None)
     = enat (Max (insert 0 (decimal_value ` id_matches [relabelled_stall, fish_stall])) + 1) \<and>
   enat (Max (insert 0 (decimal_value ` {''5'', ''2''})) + 1) = 6"
proof -
  note inst = nextIdNumber_max_plus_one [of "[relabelled_stall, fish_stall]" None]
  have m: "id_matches [relabelled_stall, fish_stall] = {''5'', ''2''}"
    by (simp add: eval_defs eval_sets relabelled_stall_def fish_stall_def)
  have d5: "decimal_value ''5'' < 2 ^ 53" and d2: "decimal_value ''2'' < 2 ^ 53"
    by (simp_all add: eval_defs)
  from d5 d2 have h: "\<forall>g \<in> id_matches [relabelled_stall, fish_stall]. decimal_value g < 2 ^ 53"
    unfolding m by blast
  have c: "nextIdNumber (getNextStallNumbers [relabelled_stall, fish_stall] None)
     = enat (Max (insert 0 (decimal_value ` id_matches [relabelled_stall, fish_stall])) + 1)"
    by (rule inst [THEN conjunct2, THEN mp, OF h])
  have v: "enat (Max (insert 0 (decimal_value ` {''5'', ''2''})) + 1) = 6"
    by (simp add: eval_defs)
  from m d5 d2 c v show ?thesis by (intro conjI)
qed

text \<open>
  C1 as stated anchors the pattern: \<open>stall-\<close> is to be a prefix of the \<open>id\<close>.  The record
  with the \<open>id\<close> \<open>old-stall-5\<close> then contributes nothing and the number would be 1; the
  code finds \<open>stall-5\<close> inside the \<open>id\<close> and returns 6.
\<close>

theorem id_prefix_counterexample:
  "nextIdNumber (getNextStallNumbers [relabelled_stall] None) = 6 \<and>
   enat (Max (insert 0 (decimal_value ` id_prefix_matches [relabelled_stall])) + 1) = 1"
  by (simp add: eval_defs eval_sets relabelled_stall_def)

section \<open>The number for the names\<close>

text \<open>
  C2, as amended.  \<open>nextNameNumber\<close> is the maximum, with 0 for none, of the numbers
  \<open>Number(digits)\<close> read from the \<open>name\<close> of every record that passes the type filter, plus 1
  in double arithmetic; the digits are the group of the first match, at any position of the
  \<open>name\<close> and in either case, of \<open>Stall\<close>, white space and digits.  When every digit string
  read denotes an integer below \<open>2 ^ 53\<close>, the result is exactly the largest of these integers
  plus 1.  The name \<open>Corner Stall 12 - North\<close> gives the digits \<open>12\<close>.
\<close>

theorem nextNameNumber_max_plus_one:
  "nextNameNumber (getNextStallNumbers stalls ty)
     = js_succ (Max (insert 0 (Number ` name_matches ty stalls))) \<and>
   ((\<forall>g \<in> name_matches ty stalls. decimal_value g < 2 ^ 53) \<longrightarrow>
      nextNameNumber (getNextStallNumbers stalls ty)
        = enat (Max (insert 0 (decimal_value ` name_matches ty stalls)) + 1)) \<and>
   regex_exec match_name_here ''Corner Stall 12 - North'' = Some ''12'' \<and>
   decimal_value ''12'' = 12"
proof (intro conjI impI)
  show "nextNameNumber (getNextStallNumbers stalls ty)
     = js_succ (Max (insert 0 (Number ` name_matches ty stalls)))"
    by (rule nextNameNumber_Max)
next
  assume "\<forall>g \<in> name_matches ty stalls. decimal_value g < 2 ^ 53"
  with finite_name_matches
  have "js_succ (Max (insert 0 (Number ` name_matches ty stalls)))
        = enat (Max (insert 0 (decimal_value ` name_matches ty stalls)) + 1)"
    by (rule max_plus_one_exact)
  then show "nextNameNumber (getNextStallNumbers stalls ty)
        = enat (Max (insert 0 (decimal_value ` name_matches ty stalls)) + 1)"
    by (simp add: nextNameNumber_Max)
next
  show "regex_exec match_name_here ''Corner Stall 12 - North'' = Some ''12''"
    by (simp add: eval_defs)
next
  show "decimal_value ''12'' = 12"
    by (simp add: eval_defs)
qed

theorem nextNameNumber_max_plus_one_witness:
  "name_matches (Some ''FISH'') [padded_fish_stall, meat_stall] = {''6''} \<and>
   decimal_value ''6'' < 2 ^ 53 \<and>
   nextNameNumber (getNextStallNumbers [padded_fish_stall, meat_stall] (Some ''FISH''))
     = enat (Max (insert 0
         (decimal_value ` name_matches (Some ''FISH'') [padded_fish_stall, meat_stall])) + 1) \<and>
   enat (Max (insert 0 (decimal_value ` {''6''})) + 1) = 7"
proof -
  note inst = nextNameNumber_max_plus_one [of "[padded_fish_stall, meat_stall]" "Some ''FISH''"]
  have m: "name_matches (Some ''FISH'') [padded_fish_stall, meat_stall] = {''6''}"
    by (simp add: eval_defs eval_sets padded_fish_stall_def meat_stall_def)
  have d: "decimal_value ''6'' < 2 ^ 53"
    by (simp add: eval_defs)
  from d have h: "\<forall>g \<in> name_matches (Some ''FISH'') [padded_fish_stall, meat_stall].
      decimal_value g < 2 ^ 53"
    unfolding m by blast
  have c: "nextNameNumber (getNextStallNumbers [padded_fish_stall, meat_stall] (Some ''FISH''))
     = enat (Max (insert 0
         (decimal_value ` name_matches (Some ''FISH'') [padded_fish_stall, meat_stall])) + 1)"
    by (rule inst [THEN conjunct2, THEN conjunct1, THEN mp, OF h])
  have v: "enat (Max (insert 0 (decimal_value ` {''6''})) + 1) = 7"
    by (simp add: eval_defs)
  from m d c v show ?thesis by (intro conjI)
qed

text \<open>
  C2 as stated returns the largest integer read plus 1, for every collection.  For the name
  \<open>Stall 9007199254740992\<close> that is \<open>9007199254740993\<close>, which no double represents: the
  sum \<open>9007199254740992 + 1\<close> rounds to \<open>9007199254740992\<close>, and that is what the code
  returns.
\<close>

theorem name_rounding_counterexample:
  "nextNameNumber (getNextStallNumbers [huge_stall] None) = enat 9007199254740992 \<and>
   enat (Max (insert 0 (decimal_value ` name_matches None [huge_stall])) + 1)
     = enat 9007199254740993"
  by (simp add: eval_defs eval_sets huge_stall_def bitlen.simps Let_def)

section \<open>The numbers exceed what is there\<close>

lemma bitlen_bounds: "0 < n \<Longrightarrow> 2 ^ (bitlen n - 1) \<le> n \<and> n < 2 ^ bitlen n"
proof (induction n rule: bitlen.induct)
  case (1 n)
  show ?case
  proof (cases "n div 2 = 0")
    case True
    with 1(2) have "n = 1" by (simp add: div_eq_0_iff)
    then show ?thesis by (simp add: bitlen.simps)
  next
    case False
    then have pos: "0 < n div 2" by simp
    let ?b = "bitlen (n div 2)"
    from 1(1) 1(2) pos have ih: "2 ^ (?b - 1) \<le> n div 2" "n div 2 < 2 ^ ?b" by simp_all
    have b: "bitlen n = Suc ?b" using 1(2) by (subst bitlen.simps) simp
    have "0 < ?b" using pos by (subst bitlen.simps) simp
    then have "(2::nat) ^ ?b = 2 * 2 ^ (?b - 1)" by (cases ?b) simp_all
    with ih(1) have lo: "2 ^ ?b \<le> n" by linarith
    from ih(2) have "n < 2 * 2 ^ ?b" by linarith
    with lo show ?thesis by (simp add: b)
  qed
qed

lemma round_double_large:
  assumes "2 ^ 53 \<le> n"
  shows "enat (2 ^ 53) \<le> round_double n"
proof -
  from assms have pos: "0 < n" by (simp add: order.strict_trans2 [of 0 "2 ^ 53"])
  define e where "e = bitlen n - 53"
  define q where "q = n div 2 ^ e"
  from bitlen_bounds [OF pos] have lo: "2 ^ (bitlen n - 1) \<le> n" and hi: "n < 2 ^ bitlen n"
    by simp_all
  from assms hi have "(2::nat) ^ 53 < 2 ^ bitlen n" by (rule le_less_trans)
  then have "53 < bitlen n" by (rule power_less_imp_less_exp [rotated]) simp
  then have e: "bitlen n - 1 = 52 + e" "1 \<le> e" by (simp_all add: e_def)
  from lo have "(2::nat) ^ (52 + e) \<le> n" by (simp only: e(1))
  then have "(2::nat) ^ 52 * 2 ^ e \<le> n" by (simp only: power_add)
  then have "2 ^ 52 \<le> q"
    unfolding q_def by (simp add: less_eq_div_iff_mult_less_eq)
  then have "2 ^ 52 * 2 ^ e \<le> q * 2 ^ e" by simp
  moreover have "(2::nat) ^ 53 \<le> 2 ^ 52 * 2 ^ e"
  proof -
    have "(2::nat) ^ 1 \<le> 2 ^ e" using e(2) by (intro power_increasing) simp_all
    then show ?thesis by simp
  qed
  ultimately have q53: "2 ^ 53 \<le> q * 2 ^ e" by linarith
  then have "2 ^ 53 \<le> (q + 1) * 2 ^ e" by (simp add: add_mult_distrib)
  with q53 assms show ?thesis
    by (simp add: round_double_def Let_def e_def [symmetric] q_def [symmetric])
qed

lemma js_succ_exceeds:
  assumes "d < 2 ^ 53" and "enat d \<le> M"
  shows "enat d < js_succ M"
proof (cases M)
  case infinity
  then show ?thesis by (simp add: js_succ_def)
next
  case (enat m)
  with assms(2) have dm: "d \<le> m" by simp
  show ?thesis
  proof (cases "m < 2 ^ 53")
    case True
    with dm enat show ?thesis by (simp add: js_succ_exact)
  next
    case False
    then have "2 ^ 53 \<le> m + 1" by simp
    then have ge: "enat (2 ^ 53) \<le> round_double (m + 1)" by (rule round_double_large)
    from assms(1) have lt: "enat d < enat (2 ^ 53)" by simp
    from lt ge have "enat d < round_double (m + 1)" by (rule less_le_trans)
    with enat show ?thesis by (simp add: js_succ_def)
  qed
qed

lemma small_match_exceeded:
  assumes "finite G" and "g \<in> G" and "decimal_value g < 2 ^ 53"
  shows "enat (decimal_value g) < js_succ (Max (insert 0 (Number ` G)))"
proof -
  from assms(3) have "Number g = enat (decimal_value g)"
    by (simp add: Number_def round_double_exact)
  moreover from assms(1,2) have "Number g \<le> Max (insert 0 (Number ` G))"
    by (intro Max_ge) auto
  ultimately have "enat (decimal_value g) \<le> Max (insert 0 (Number ` G))" by simp
  with assms(3) show ?thesis by (rule js_succ_exceeds)
qed

text \<open>
  C3, as amended.  \<open>nextIdNumber\<close> is strictly greater than every integer below \<open>2 ^ 53\<close>
  that is read from the \<open>id\<close> of a record, and \<open>nextNameNumber\<close> is strictly greater than
  every integer below \<open>2 ^ 53\<close> that is read from the \<open>name\<close> of a record that passes the
  type filter; whatever the other records hold.
\<close>

theorem next_numbers_exceed_matches:
  "(\<forall>g \<in> id_matches stalls. decimal_value g < 2 ^ 53 \<longrightarrow>
      enat (decimal_value g) < nextIdNumber (getNextStallNumbers stalls ty)) \<and>
   (\<forall>g \<in> name_matches ty stalls. decimal_value g < 2 ^ 53 \<longrightarrow>
      enat (decimal_value g) < nextNameNumber (getNextStallNumbers stalls ty))"
  by (simp add: nextIdNumber_Max nextNameNumber_Max small_match_exceeded
      finite_id_matches finite_name_matches)

theorem next_numbers_exceed_matches_witness:
  "''2'' \<in> id_matches [huge_stall, fish_stall] \<and>
   ''3'' \<in> name_matches None [huge_stall, fish_stall] \<and>
   decimal_value ''2'' < 2 ^ 53 \<and> decimal_value ''3'' < 2 ^ 53 \<and>
   enat (decimal_value ''2'') < nextIdNumber (getNextStallNumbers [huge_stall, fish_stall] None) \<and>
   enat (decimal_value ''3'') < nextNameNumber (getNextStallNumbers [huge_stall, fish_stall] None) \<and>
   getNextStallNumbers [huge_stall, fish_stall] None
     = \<lparr> nextIdNumber = 9007199254740992, nextNameNumber = 9007199254740992 \<rparr>"
proof -
  note inst = next_numbers_exceed_matches [of "[huge_stall, fish_stall]" None]
  have mi: "''2'' \<in> id_matches [huge_stall, fish_stall]"
    by (simp add: eval_defs eval_sets huge_stall_def fish_stall_def)
  have mn: "''3'' \<in> name_matches None [huge_stall, fish_stall]"
    by (simp add: eval_defs eval_sets huge_stall_def fish_stall_def)
  have d2: "decimal_value ''2'' < 2 ^ 53" and d3: "decimal_value ''3'' < 2 ^ 53"
    by (simp_all add: eval_defs)
  have c2: "enat (decimal_value ''2'')
      < nextIdNumber (getNextStallNumbers [huge_stall, fish_stall] None)"
    by (rule inst [THEN conjunct1, THEN bspec, THEN mp, OF mi d2])
  have c3: "enat (decimal_value ''3'')
      < nextNameNumber (getNextStallNumbers [huge_stall, fish_stall] None)"
    by (rule inst [THEN conjunct2, THEN bspec, THEN mp, OF mn d3])
  have v: "getNextStallNumbers [huge_stall, fish_stall] None
     = \<lparr> nextIdNumber = 9007199254740992, nextNameNumber = 9007199254740992 \<rparr>"
    by (simp add: eval_defs huge_stall_def fish_stall_def bitlen.simps Let_def)
  from mi mn d2 d3 c2 c3 v show ?thesis by (intro conjI)
qed

text \<open>
  C3 as stated holds for every collection.  For the \<open>id\<close> \<open>stall-9007199254740992\<close> the
  integer read is \<open>2 ^ 53\<close> and \<open>nextIdNumber\<close> is \<open>2 ^ 53\<close> as well, since
  \<open>2 ^ 53 + 1\<close> rounds back to \<open>2 ^ 53\<close>: equal, not greater.
\<close>

theorem id_not_exceeded_counterexample:
  "''9007199254740992'' \<in> id_matches [huge_stall] \<and>
   decimal_value ''9007199254740992'' = 9007199254740992 \<and>
   nextIdNumber (getNextStallNumbers [huge_stall] None) = enat 9007199254740992 \<and>
   \<not> enat (decimal_value ''9007199254740992'')
       < nextIdNumber (getNextStallNumbers [huge_stall] None)"
  by (simp add: eval_defs eval_sets huge_stall_def bitlen.simps Let_def)

section \<open>The empty collection\<close>

text \<open>
  C4: for the empty list of records, with or without a type filter, both numbers are 1.
\<close>

theorem empty_collection_gives_one:
  "getNextStallNumbers [] ty = \<lparr> nextIdNumber = 1, nextNameNumber = 1 \<rparr>"
  by (simp add: getNextStallNumbers_def js_succ_def zero_enat_def one_enat_def round_double_def)

section \<open>Two records\<close>

lemma name_matches_drop_filtered:
  "\<not> passes_filter ty r \<Longrightarrow> name_matches ty (xs @ r # ys) = name_matches ty (xs @ ys)"
  by (auto simp: name_matches_def)

text \<open>
  C5: for the records with \<open>id\<close> \<open>stall-2\<close>, \<open>name\<close> \<open>Stall 3\<close>, \<open>type\<close> \<open>Fish\<close> and
  \<open>id\<close> \<open>stall-7\<close>, \<open>name\<close> \<open>Stall 1\<close>, \<open>type\<close> \<open>Meat\<close>, whatever their other fields,
  the numbers are 8 and 4 without a filter, and 8 and 4 with the filter \<open>fish\<close>.  Under that
  filter the Meat record is left out of the maximum of the names: the callback of the second
  \<open>reduce\<close> returns the running maximum unchanged for it, where it takes in 3 for the Fish
  record and would take in 1 for the Meat record without a filter; the Meat record can be
  taken out of any collection without changing \<open>nextNameNumber\<close>; and alone it gives the
  name number 1, while its \<open>id\<close> still counts.
\<close>

theorem example_two_stalls:
  "getNextStallNumbers
     [\<lparr> id' = ''stall-2'', dbId = d1, name = ''Stall 3'', vendor = v1, contact = c1,
        type = ''Fish'', monthlyRent = m1, lastPayment = l1, nextDue = n1, status = s1,
        occupied = o1 \<rparr>,
      \<lparr> id' = ''stall-7'', dbId = d2, name = ''Stall 1'', vendor = v2, contact = c2,
        type = ''Meat'', monthlyRent = m2, lastPayment = l2, nextDue = n2, status = s2,
        occupied = o2 \<rparr>] None = \<lparr> nextIdNumber = 8, nextNameNumber = 4 \<rparr> \<and>
   getNextStallNumbers
     [\<lparr> id' = ''stall-2'', dbId = d1, name = ''Stall 3'', vendor = v1, contact = c1,
        type = ''Fish'', monthlyRent = m1, lastPayment = l1, nextDue = n1, status = s1,
        occupied = o1 \<rparr>,
      \<lparr> id' = ''stall-7'', dbId = d2, name = ''Stall 1'', vendor = v2, contact = c2,
        type = ''Meat'', monthlyRent = m2, lastPayment = l2, nextDue = n2, status = s2,
        occupied = o2 \<rparr>] (Some ''fish'') = \<lparr> nextIdNumber = 8, nextNameNumber = 4 \<rparr> \<and>
   name_step (Some (toLowerCase (trim ''fish''))) highest
      \<lparr> id' = ''stall-7'', dbId = d2, name = ''Stall 1'', vendor = v2, contact = c2,
        type = ''Meat'', monthlyRent = m2, lastPayment = l2, nextDue = n2, status = s2,
        occupied = o2 \<rparr> = highest \<and>
   name_step (Some (toLowerCase (trim ''fish''))) highest
      \<lparr> id' = ''stall-2'', dbId = d1, name = ''Stall 3'', vendor = v1, contact = c1,
        type = ''Fish'', monthlyRent = m1, lastPayment = l1, nextDue = n1, status = s1,
        occupied = o1 \<rparr> = max highest 3 \<and>
   name_step None highest
      \<lparr> id' = ''stall-7'', dbId = d2, name = ''Stall 1'', vendor = v2, contact = c2,
        type = ''Meat'', monthlyRent = m2, lastPayment = l2, nextDue = n2, status = s2,
        occupied = o2 \<rparr> = max highest 1 \<and>
   nextNameNumber (getNextStallNumbers
     (xs @ \<lparr> id' = ''stall-7'', dbId = d2, name = ''Stall 1'', vendor = v2, contact = c2,
        type = ''Meat'', monthlyRent = m2, lastPayment = l2, nextDue = n2, status = s2,
        occupied = o2 \<rparr> # ys) (Some ''fish''))
     = nextNameNumber (getNextStallNumbers (xs @ ys) (Some ''fish'')) \<and>
   getNextStallNumbers
     [\<lparr> id' = ''stall-7'', dbId = d2, name = ''Stall 1'', vendor = v2, contact = c2,
        type = ''Meat'', monthlyRent = m2, lastPayment = l2, nextDue = n2, status = s2,
        occupied = o2 \<rparr>] (Some ''fish'') = \<lparr> nextIdNumber = 8, nextNameNumber = 1 \<rparr>"
proof (intro conjI)
  let ?meat = "\<lparr> id' = ''stall-7'', dbId = d2, name = ''Stall 1'', vendor = v2, contact = c2,
        type = ''Meat'', monthlyRent = m2, lastPayment = l2, nextDue = n2, status = s2,
        occupied = o2 \<rparr>"
  have "\<not> passes_filter (Some ''fish'') ?meat"
    by (simp add: passes_filter_def eval_defs)
  then have "name_matches (Some ''fish'') (xs @ ?meat # ys) = name_matches (Some ''fish'') (xs @ ys)"
    by (rule name_matches_drop_filtered)
  then show "nextNameNumber (getNextStallNumbers (xs @ ?meat # ys) (Some ''fish''))
     = nextNameNumber (getNextStallNumbers (xs @ ys) (Some ''fish''))"
    by (simp add: nextNameNumber_Max)
qed (simp_all add: eval_defs)

section \<open>The filter and the ids\<close>

text \<open>
  C6: for every collection, \<open>nextIdNumber\<close> is the same for any two choices of the type
  filter, absent or present.
\<close>

theorem id_number_ignores_filter:
  "nextIdNumber (getNextStallNumbers stalls ty1) = nextIdNumber (getNextStallNumbers stalls ty2)"
  by (simp add: getNextStallNumbers_def)

section \<open>Order\<close>

text \<open>
  C7: a permutation of the collection gives the same pair of numbers, for any type filter.
  The function is a function of its two arguments and nothing else, so two calls on the same
  input agree.
\<close>

theorem order_independent:
  assumes "mset xs = mset ys"
  shows "getNextStallNumbers xs ty = getNextStallNumbers ys ty"
proof -
  from assms have "set xs = set ys" by (rule mset_eq_setD)
  then have "id_matches xs = id_matches ys" and "name_matches ty xs = name_matches ty ys"
    by (simp_all add: id_matches_def name_matches_def)
  then show ?thesis
    by (intro NextNumbers_eqI) (simp_all add: nextIdNumber_Max nextNameNumber_Max)
qed

theorem order_independent_witness:
  "mset [fish_stall, meat_stall] = mset [meat_stall, fish_stall] \<and>
   getNextStallNumbers [fish_stall, meat_stall] (Some ''Meat'')
     = getNextStallNumbers [meat_stall, fish_stall] (Some ''Meat'') \<and>
   getNextStallNumbers [meat_stall, fish_stall] (Some ''Meat'')
     = \<lparr> nextIdNumber = 8, nextNameNumber = 2 \<rparr>"
proof -
  have p: "mset [fish_stall, meat_stall] = mset [meat_stall, fish_stall]" by simp
  have e: "getNextStallNumbers [fish_stall, meat_stall] (Some ''Meat'')
     = getNextStallNumbers [meat_stall, fish_stall] (Some ''Meat'')"
    by (rule order_independent [OF p])
  have v: "getNextStallNumbers [meat_stall, fish_stall] (Some ''Meat'')
     = \<lparr> nextIdNumber = 8, nextNameNumber = 2 \<rparr>"
    by (simp add: eval_defs fish_stall_def meat_stall_def)
  from p e v show ?thesis by (intro conjI)
qed

section \<open>Trimming and case of the filter\<close>

lemma normalized_filter_eq:
  assumes "toLowerCase (trim t1) = toLowerCase (trim t2)"
  shows "getNextStallNumbers stalls (Some t1) = getNextStallNumbers stalls (Some t2)"
  using assms by (simp add: getNextStallNumbers_def)

lemma normalize_FISH: "toLowerCase (trim '' FISH '') = toLowerCase (trim ''fish'')"
  by (simp add: eval_defs)

lemma name_step_filtered:
  "name_step (Some (toLowerCase (trim t))) highest r =
     (if toLowerCase (trim (type r)) = toLowerCase (trim t)
      then name_step None highest r else highest)"
  by (simp add: name_step_def)

lemma name_matches_filter:
  "name_matches (Some t) stalls
   = name_matches None [s \<leftarrow> stalls. toLowerCase (trim (type s)) = toLowerCase (trim t)]"
  by (auto simp: name_matches_def passes_filter_def)

lemma nextNameNumber_filter:
  "nextNameNumber (getNextStallNumbers stalls (Some t))
   = nextNameNumber (getNextStallNumbers
       [s \<leftarrow> stalls. toLowerCase (trim (type s)) = toLowerCase (trim t)] None)"
  by (simp add: nextNameNumber_Max name_matches_filter)

text \<open>
  C8: the comparison of the filter trims and lower-cases both sides.  Two filters that agree
  once trimmed and put in lower case give the same result; in particular \<open>" FISH "\<close> and
  \<open>"fish"\<close> do, for every collection.  With a filter \<open>t\<close>, \<open>nextNameNumber\<close> is the number,
  without a filter, of the records whose \<open>type\<close>, trimmed and in lower case, is \<open>t\<close>, trimmed
  and in lower case; and for any record the callback of the second \<open>reduce\<close> does what it
  does without a filter when the two agree, and returns the running maximum unchanged when
  they differ.  \<open>" FISH "\<close>, \<open>" Fish "\<close> and \<open>"fish"\<close> all normalise to \<open>"fish"\<close>: a record of
  type \<open>" Fish "\<close> passes the filter \<open>"fish"\<close>, a record of type \<open>"Meat"\<close> is skipped.  For a
  record of type \<open>" Fish "\<close> named \<open>Stall 6\<close> and one of type \<open>"Meat"\<close> named \<open>Stall 1\<close>
  the name number is 7 without a filter and with \<open>"fish"\<close>, and 2 with \<open>" MEAT "\<close>.
\<close>

theorem filter_trims_and_folds_case:
  "(toLowerCase (trim t1) = toLowerCase (trim t2) \<longrightarrow>
      getNextStallNumbers stalls (Some t1) = getNextStallNumbers stalls (Some t2)) \<and>
   getNextStallNumbers stalls (Some '' FISH '') = getNextStallNumbers stalls (Some ''fish'') \<and>
   (type r = '' Fish '' \<longrightarrow>
      name_step (map_option (\<lambda>t. toLowerCase (trim t)) (Some ''fish'')) highest r
        = name_step None highest r) \<and>
   nextNameNumber (getNextStallNumbers stalls (Some t))
     = nextNameNumber (getNextStallNumbers
         [s \<leftarrow> stalls. toLowerCase (trim (type s)) = toLowerCase (trim t)] None) \<and>
   name_step (map_option (\<lambda>t. toLowerCase (trim t)) (Some t)) highest r
     = (if toLowerCase (trim (type r)) = toLowerCase (trim t)
        then name_step None highest r else highest) \<and>
   toLowerCase (trim '' FISH '') = ''fish'' \<and>
   toLowerCase (trim '' Fish '') = ''fish'' \<and>
   toLowerCase (trim ''fish'') = ''fish'' \<and>
   (type r = ''Meat'' \<longrightarrow>
      name_step (map_option (\<lambda>t. toLowerCase (trim t)) (Some ''fish'')) highest r = highest) \<and>
   nextNameNumber (getNextStallNumbers [padded_fish_stall, meat_stall] None) = 7 \<and>
   nextNameNumber (getNextStallNumbers [padded_fish_stall, meat_stall] (Some ''fish'')) = 7 \<and>
   nextNameNumber (getNextStallNumbers [padded_fish_stall, meat_stall] (Some '' MEAT '')) = 2"
proof (intro conjI impI)
  assume "toLowerCase (trim t1) = toLowerCase (trim t2)"
  then show "getNextStallNumbers stalls (Some t1) = getNextStallNumbers stalls (Some t2)"
    by (rule normalized_filter_eq)
next
  show "getNextStallNumbers stalls (Some '' FISH '') = getNextStallNumbers stalls (Some ''fish'')"
    by (rule normalized_filter_eq [OF normalize_FISH])
next
  assume "type r = '' Fish ''"
  then have "toLowerCase (trim (type r)) = toLowerCase (trim ''fish'')"
    by (simp add: eval_defs)
  then show "name_step (map_option (\<lambda>t. toLowerCase (trim t)) (Some ''fish'')) highest r
        = name_step None highest r"
    by (simp add: name_step_def)
next
  show "nextNameNumber (getNextStallNumbers stalls (Some t))
     = nextNameNumber (getNextStallNumbers
         [s \<leftarrow> stalls. toLowerCase (trim (type s)) = toLowerCase (trim t)] None)"
    by (rule nextNameNumber_filter)
next
  show "name_step (map_option (\<lambda>t. toLowerCase (trim t)) (Some t)) highest r
     = (if toLowerCase (trim (type r)) = toLowerCase (trim t)
        then name_step None highest r else highest)"
    by (simp add: name_step_filtered)
next
  assume "type r = ''Meat''"
  then have "toLowerCase (trim (type r)) \<noteq> toLowerCase (trim ''fish'')"
    by (simp add: eval_defs)
  then show "name_step (map_option (\<lambda>t. toLowerCase (trim t)) (Some ''fish'')) highest r = highest"
    by (simp add: name_step_filtered)
next
  show "nextNameNumber (getNextStallNumbers [padded_fish_stall, meat_stall] None) = 7"
    by (simp add: eval_defs padded_fish_stall_def meat_stall_def)
next
  show "nextNameNumber (getNextStallNumbers [padded_fish_stall, meat_stall] (Some ''fish'')) = 7"
    by (simp add: eval_defs padded_fish_stall_def meat_stall_def)
next
  show "nextNameNumber (getNextStallNumbers [padded_fish_stall, meat_stall] (Some '' MEAT '')) = 2"
    by (simp add: eval_defs padded_fish_stall_def meat_stall_def)
qed (simp_all add: eval_defs)

theorem filter_trims_and_folds_case_witness:
  "toLowerCase (trim ''Fish  '') = toLowerCase (trim ''  fISH'') \<and>
   getNextStallNumbers [padded_fish_stall, meat_stall] (Some ''Fish  '')
     = getNextStallNumbers [padded_fish_stall, meat_stall] (Some ''  fISH'') \<and>
   type padded_fish_stall = '' Fish '' \<and>
   name_step (map_option (\<lambda>t. toLowerCase (trim t)) (Some ''fish'')) 0 padded_fish_stall
     = name_step None 0 padded_fish_stall \<and>
   name_step None 0 padded_fish_stall = 6 \<and>
   type meat_stall = ''Meat'' \<and>
   name_step (map_option (\<lambda>t. toLowerCase (trim t)) (Some ''fish'')) 0 meat_stall = 0 \<and>
   name_step None 0 meat_stall = 1"
proof -
  note inst = filter_trims_and_folds_case
    [of "''Fish  ''" "''  fISH''" "[padded_fish_stall, meat_stall]" padded_fish_stall 0]
  note inst' = filter_trims_and_folds_case
    [of "''Fish  ''" "''  fISH''" "[padded_fish_stall, meat_stall]" meat_stall 0]
  have h1: "toLowerCase (trim ''Fish  '') = toLowerCase (trim ''  fISH'')"
    by (simp add: eval_defs)
  have c1: "getNextStallNumbers [padded_fish_stall, meat_stall] (Some ''Fish  '')
     = getNextStallNumbers [padded_fish_stall, meat_stall] (Some ''  fISH'')"
    by (rule inst [THEN conjunct1, THEN mp, OF h1])
  have h2: "type padded_fish_stall = '' Fish ''"
    by (simp add: padded_fish_stall_def)
  have c2: "name_step (map_option (\<lambda>t. toLowerCase (trim t)) (Some ''fish'')) 0 padded_fish_stall
     = name_step None 0 padded_fish_stall"
    by (rule inst [THEN conjunct2, THEN conjunct2, THEN conjunct1, THEN mp, OF h2])
  have v: "name_step None 0 padded_fish_stall = 6"
    by (simp add: eval_defs padded_fish_stall_def)
  have h3: "type meat_stall = ''Meat''"
    by (simp add: meat_stall_def)
  have c3: "name_step (map_option (\<lambda>t. toLowerCase (trim t)) (Some ''fish'')) 0 meat_stall = 0"
    by (rule inst' [THEN conjunct2, THEN conjunct2, THEN conjunct2, THEN conjunct2,
        THEN conjunct2, THEN conjunct2, THEN conjunct2, THEN conjunct2, THEN conjunct1,
        THEN mp, OF h3])
  have v': "name_step None 0 meat_stall = 1"
    by (simp add: eval_defs meat_stall_def)
  from h1 c1 h2 c2 v h3 c3 v' show ?thesis by (intro conjI)
qed

section \<open>Records without a number\<close>

lemma id_matches_remove:
  "regex_exec match_id_here (id' r) = None \<Longrightarrow> id_matches (xs @ r # ys) = id_matches (xs @ ys)"
  by (auto simp: id_matches_def)

lemma name_matches_remove:
  "regex_exec match_name_here (name r) = None \<Longrightarrow>
     name_matches ty (xs @ r # ys) = name_matches ty (xs @ ys)"
  by (auto simp: name_matches_def)

text \<open>
  C9: \<open>getNextStallNumbers\<close> is total: the only partial step of the source, reading the
  group of a match, is behind the test for a match.  A record whose \<open>id\<close> has no match can be
  taken out of the collection, anywhere, without changing \<open>nextIdNumber\<close>, and a record whose
  \<open>name\<close> has no match without changing \<open>nextNameNumber\<close>.
\<close>

theorem unmatched_records_are_inert:
  "(regex_exec match_id_here (id' r) = None \<longrightarrow>
      nextIdNumber (getNextStallNumbers (xs @ r # ys) ty)
        = nextIdNumber (getNextStallNumbers (xs @ ys) ty)) \<and>
   (regex_exec match_name_here (name r) = None \<longrightarrow>
      nextNameNumber (getNextStallNumbers (xs @ r # ys) ty)
        = nextNameNumber (getNextStallNumbers (xs @ ys) ty))"
  by (simp add: nextIdNumber_Max nextNameNumber_Max id_matches_remove name_matches_remove)

theorem unmatched_records_are_inert_witness:
  "regex_exec match_id_here (id' unnumbered_stall) = None \<and>
   regex_exec match_name_here (name unnumbered_stall) = None \<and>
   nextIdNumber (getNextStallNumbers ([fish_stall] @ unnumbered_stall # [meat_stall]) None)
     = nextIdNumber (getNextStallNumbers ([fish_stall] @ [meat_stall]) None) \<and>
   nextNameNumber (getNextStallNumbers ([fish_stall] @ unnumbered_stall # [meat_stall]) None)
     = nextNameNumber (getNextStallNumbers ([fish_stall] @ [meat_stall]) None) \<and>
   getNextStallNumbers ([fish_stall] @ unnumbered_stall # [meat_stall]) None
     = \<lparr> nextIdNumber = 8, nextNameNumber = 4 \<rparr>"
proof -
  note inst = unmatched_records_are_inert [of unnumbered_stall "[fish_stall]" "[meat_stall]" None]
  have h1: "regex_exec match_id_here (id' unnumbered_stall) = None"
    by (simp add: eval_defs unnumbered_stall_def)
  have h2: "regex_exec match_name_here (name unnumbered_stall) = None"
    by (simp add: eval_defs unnumbered_stall_def)
  have c1: "nextIdNumber (getNextStallNumbers ([fish_stall] @ unnumbered_stall # [meat_stall]) None)
     = nextIdNumber (getNextStallNumbers ([fish_stall] @ [meat_stall]) None)"
    by (rule inst [THEN conjunct1, THEN mp, OF h1])
  have c2: "nextNameNumber (getNextStallNumbers ([fish_stall] @ unnumbered_stall # [meat_stall]) None)
     = nextNameNumber (getNextStallNumbers ([fish_stall] @ [meat_stall]) None)"
    by (rule inst [THEN conjunct2, THEN mp, OF h2])
  have v: "getNextStallNumbers ([fish_stall] @ unnumbered_stall # [meat_stall]) None
     = \<lparr> nextIdNumber = 8, nextNameNumber = 4 \<rparr>"
    by (simp add: eval_defs fish_stall_def meat_stall_def unnumbered_stall_def)
  from h1 h2 c1 c2 v show ?thesis by (intro conjI)
qed

section \<open>A blank filter\<close>

lemma toLowerCase_Nil_iff: "toLowerCase s = [] \<longleftrightarrow> s = []"
  by (simp add: toLowerCase_def)

lemma name_matches_blank_filter:
  assumes "trim t = []"
  shows "name_matches (Some t) stalls = name_matches None [s \<leftarrow> stalls. trim (type s) = []]"
proof -
  have "toLowerCase (trim (type s)) = toLowerCase (trim t) \<longleftrightarrow> trim (type s) = []"
    for s :: StallRecord
    using assms by (simp add: toLowerCase_def)
  then show ?thesis by (auto simp: name_matches_def passes_filter_def)
qed

text \<open>
  C10: a filter that trims to the empty string is a filter: \<open>nextNameNumber\<close> is then the
  number, without a filter, of the records whose \<open>type\<close> trims to the empty string.  For a
  record of type \<open>Fish\<close> named \<open>Stall 3\<close> and a record of blank type named \<open>Stall 1\<close>
  the empty filter gives 2, and no filter gives 4.
\<close>

theorem blank_filter_is_a_filter:
  "(trim t = [] \<longrightarrow>
      nextNameNumber (getNextStallNumbers stalls (Some t))
        = nextNameNumber (getNextStallNumbers [s \<leftarrow> stalls. trim (type s) = []] None)) \<and>
   nextNameNumber (getNextStallNumbers [fish_stall, blank_type_stall] (Some [])) = 2 \<and>
   nextNameNumber (getNextStallNumbers [fish_stall, blank_type_stall] None) = 4"
proof (intro conjI impI)
  assume "trim t = []"
  then show "nextNameNumber (getNextStallNumbers stalls (Some t))
        = nextNameNumber (getNextStallNumbers [s \<leftarrow> stalls. trim (type s) = []] None)"
    by (simp add: nextNameNumber_Max name_matches_blank_filter)
next
  show "nextNameNumber (getNextStallNumbers [fish_stall, blank_type_stall] (Some [])) = 2"
    by (simp add: eval_defs fish_stall_def blank_type_stall_def)
next
  show "nextNameNumber (getNextStallNumbers [fish_stall, blank_type_stall] None) = 4"
    by (simp add: eval_defs fish_stall_def blank_type_stall_def)
qed

theorem blank_filter_is_a_filter_witness:
  "trim ''  '' = [] \<and>
   nextNameNumber (getNextStallNumbers [fish_stall, blank_type_stall] (Some ''  ''))
     = nextNameNumber
         (getNextStallNumbers [s \<leftarrow> [fish_stall, blank_type_stall]. trim (type s) = []] None) \<and>
   [s \<leftarrow> [fish_stall, blank_type_stall]. trim (type s) = []] = [blank_type_stall] \<and>
   nextNameNumber (getNextStallNumbers [blank_type_stall] None) = 2"
proof -
  note inst = blank_filter_is_a_filter [of "''  ''" "[fish_stall, blank_type_stall]"]
  have h: "trim ''  '' = []" by (simp add: eval_defs)
  have c: "nextNameNumber (getNextStallNumbers [fish_stall, blank_type_stall] (Some ''  ''))
     = nextNameNumber
         (getNextStallNumbers [s \<leftarrow> [fish_stall, blank_type_stall]. trim (type s) = []] None)"
    by (rule inst [THEN conjunct1, THEN mp, OF h])
  have f: "[s \<leftarrow> [fish_stall, blank_type_stall]. trim (type s) = []] = [blank_type_stall]"
    by (simp add: eval_defs fish_stall_def blank_type_stall_def)
  have v: "nextNameNumber (getNextStallNumbers [blank_type_stall] None) = 2"
    by (simp add: eval_defs blank_type_stall_def)
  from h c f v show ?thesis by (intro conjI)
qed

end
